theory Spec2Isabelle
  imports Main "HOL-Library.Sublist"
begin

section \<open>Text preprocessing: lines, tokens, vocabulary, corpus\<close>

text \<open>
  A shallow embedding of the text-preprocessing notebook: \<open>read_time_machine\<close>,
  \<open>tokenize\<close>, \<open>count_corpus\<close>, the class \<open>Vocab\<close> and \<open>load_corpus_time_machine\<close>.

  Python strings are modelled as \<^typ>\<open>string\<close>; a \<^typ>\<open>char\<close> stands for one code point
  below 256. Python integers are \<^typ>\<open>int\<close>; lengths, counts and positions, which are
  never negative, are \<^typ>\<open>nat\<close>. Exceptions are values of the type \<open>error\<close>.
  Arguments have the types the notebook uses them at: lines and tokens are strings, a
  token collection is a list of tokens or a list of token lines, a mode is a string.
\<close>

subsection \<open>Errors\<close>

text \<open>
  The exceptions the modelled code can raise: \<open>IOError\<close> when the text file cannot be
  opened, \<open>IndexError\<close> for a list index out of range, \<open>TypeError\<close> for iterating over
  \<open>None\<close>.
\<close>

datatype error = IOError | IndexError | TypeError

type_synonym token = string

subsection \<open>Reading the lines: \<open>read_time_machine\<close>\<close>

text \<open>The character class \<open>[A-Za-z]\<close> of the regular expression.\<close>

definition is_letter :: "char \<Rightarrow> bool" where
  "is_letter c \<longleftrightarrow>
     (let n = (of_char c :: nat) in (65 \<le> n \<and> n \<le> 90) \<or> (97 \<le> n \<and> n \<le> 122))"

text \<open>
  \<open>str.isspace\<close> on the code points below 256: tab to carriage return, the four
  separators 28 to 31, the space, and the code points 133 and 160.
\<close>

definition isspace :: "char \<Rightarrow> bool" where
  "isspace c \<longleftrightarrow>
     (let n = (of_char c :: nat)
      in (9 \<le> n \<and> n \<le> 13) \<or> (28 \<le> n \<and> n \<le> 32) \<or> n = 133 \<or> n = 160)"

text \<open>
  \<open>str.lower\<close> on one code point below 256: the capital letters \<open>A\<close> to \<open>Z\<close> and
  the capital letters 192 to 222 (but not the multiplication sign 215) move up by 32.
\<close>

definition lower_char :: "char \<Rightarrow> char" where
  "lower_char c =
     (let n = (of_char c :: nat)
      in if (65 \<le> n \<and> n \<le> 90) \<or> (192 \<le> n \<and> n \<le> 222 \<and> n \<noteq> 215)
         then char_of (n + 32) else c)"

text \<open>
  \<open>re.sub('[^A-Za-z]+', ' ', line)\<close>: scanning from the left, every maximal run of
  characters that are not letters is replaced by one space.
\<close>

function re_sub_non_letters :: "string \<Rightarrow> string" where
  "re_sub_non_letters [] = []"
| "re_sub_non_letters (c # cs) =
     (if is_letter c then c # re_sub_non_letters cs
      else CHR '' '' # re_sub_non_letters (dropWhile (\<lambda>x. \<not> is_letter x) cs))"
  by pat_completeness auto
termination
  by (relation "measure length") (auto simp: length_dropWhile_le less_Suc_eq_le)

text \<open>\<open>str.strip()\<close>: drop the whitespace at both ends.\<close>

definition str_strip :: "string \<Rightarrow> string" where
  "str_strip s = rev (dropWhile isspace (rev (dropWhile isspace s)))"

definition str_lower :: "string \<Rightarrow> string" where
  "str_lower s = map lower_char s"

text \<open>The expression \<open>re.sub('[^A-Za-z]+', ' ', line).strip().lower()\<close>.\<close>

definition normalize_line :: "string \<Rightarrow> string" where
  "normalize_line line = str_lower (str_strip (re_sub_non_letters line))"

text \<open>
  The file is a parameter: \<open>None\<close> when it cannot be opened, otherwise the result of
  \<open>f.readlines()\<close>.
\<close>

definition read_time_machine :: "string list option \<Rightarrow> error + string list" where
  "read_time_machine file =
     (case file of
        None \<Rightarrow> Inl IOError
      | Some lines \<Rightarrow> Inr (map normalize_line lines))"

subsection \<open>Splitting lines into tokens: \<open>tokenize\<close>\<close>

text \<open>
  \<open>str.split()\<close> without arguments: skip whitespace, take the characters up to the
  next whitespace as one word, and go on with the rest.
\<close>

function str_split :: "string \<Rightarrow> string list" where
  "str_split s =
     (if dropWhile isspace s = [] then []
      else takeWhile (\<lambda>c. \<not> isspace c) (dropWhile isspace s)
           # str_split (dropWhile (\<lambda>c. \<not> isspace c) (dropWhile isspace s)))"
  by pat_completeness auto
termination
proof (relation "measure length")
  show "wf (measure length)" by simp
next
  fix s :: string
  assume ne: "dropWhile isspace s \<noteq> []"
  then obtain c cs where d: "dropWhile isspace s = c # cs"
    by (cases "dropWhile isspace s") auto
  with hd_dropWhile [OF ne] have "\<not> isspace c" by simp
  then have "length (dropWhile (\<lambda>c. \<not> isspace c) (c # cs)) \<le> length cs"
    by (simp add: length_dropWhile_le)
  also have "length cs < length (dropWhile isspace s)" by (simp add: d)
  also have "\<dots> \<le> length s" by (rule length_dropWhile_le)
  finally show "(dropWhile (\<lambda>c. \<not> isspace c) (dropWhile isspace s), s) \<in> measure length"
    by (simp add: d)
qed

declare str_split.simps [simp del]

text \<open>\<open>list(line)\<close>: one token per character.\<close>

definition list_of_str :: "string \<Rightarrow> token list" where
  "list_of_str s = map (\<lambda>c. [c]) s"

text \<open>
  What \<open>tokenize\<close> prints: the line made of the message ``error: unknown token type:''
  followed by the value of \<open>token\<close>.
\<close>

datatype report = UnknownTokenType string

text \<open>
  \<open>tokenize\<close> returns a pair: the outcome of the call and the lines it printed. The
  outcome is an exception or the returned value, where \<open>None\<close> is Python's \<open>None\<close>, the
  value of a function that ends without \<open>return\<close>.
\<close>

definition tokenize ::
  "string list \<Rightarrow> string \<Rightarrow> (error + token list list option) \<times> report list" where
  "tokenize lines token =
     (if token = ''word'' then (Inr (Some (map str_split lines)), [])
      else if token = ''char'' then (Inr (Some (map list_of_str lines)), [])
      else (Inr None, [UnknownTokenType token]))"

subsection \<open>Counting: \<open>collections.Counter\<close> and \<open>count_corpus\<close>\<close>

text \<open>
  A \<open>Counter\<close> is a dictionary from elements to counts that keeps its keys in the order
  of first insertion; the order matters below (the frequency sort is stable), so it is an
  association list. \<open>counter_add\<close> is one step \<open>self[elem] = self.get(elem, 0) + 1\<close>.
\<close>

fun counter_add :: "'a \<Rightarrow> ('a \<times> nat) list \<Rightarrow> ('a \<times> nat) list" where
  "counter_add x [] = [(x, 1)]"
| "counter_add x ((k, n) # kvs) =
     (if k = x then (k, n + 1) # kvs else (k, n) # counter_add x kvs)"

definition Counter :: "'a list \<Rightarrow> ('a \<times> nat) list" where
  "Counter xs = fold counter_add xs []"

text \<open>
  The argument of \<open>count_corpus\<close> is a 1D list of tokens or a 2D list of token lines.
  The source tells them apart by \<open>len(tokens) == 0 or isinstance(tokens[0], list)\<close>.
\<close>

datatype tokens = Flat "token list" | Nested "token list list"

fun len_tokens :: "tokens \<Rightarrow> nat" where
  "len_tokens (Flat ts) = length ts"
| "len_tokens (Nested ls) = length ls"

fun first_is_list :: "tokens \<Rightarrow> bool" where
  "first_is_list (Flat ts) = False"
| "first_is_list (Nested ls) = True"

text \<open>\<open>[token for line in tokens for token in line]\<close>; on a 1D list it is only reached
  when the list is empty.\<close>

fun flatten :: "tokens \<Rightarrow> token list" where
  "flatten (Flat ts) = concat (map (\<lambda>line. map (\<lambda>c. [c]) line) ts)"
| "flatten (Nested ls) = concat ls"

fun as_list :: "tokens \<Rightarrow> token list" where
  "as_list (Flat ts) = ts"
| "as_list (Nested ls) = concat ls"

definition count_corpus :: "tokens \<Rightarrow> (token \<times> nat) list" where
  "count_corpus tokens =
     (if len_tokens tokens = 0 \<or> first_is_list tokens
      then Counter (flatten tokens)
      else Counter (as_list tokens))"

subsection \<open>\<open>sorted(..., key=..., reverse=True)\<close>\<close>

text \<open>
  Python's sort is stable. With \<open>reverse=True\<close> the list is reversed, sorted stably in
  ascending order and reversed again, so that equal keys keep their original order.
\<close>

definition sorted_reverse :: "('a \<Rightarrow> 'k::linorder) \<Rightarrow> 'a list \<Rightarrow> 'a list" where
  "sorted_reverse key xs = rev (sort_key key (rev xs))"

subsection \<open>The class \<open>Vocab\<close>\<close>

record vocab =
  token_freqs :: "(token \<times> nat) list"
  unk :: nat
  idx_to_token :: "token list"
  token_to_idx :: "token \<rightharpoonup> nat"

text \<open>One pass of the loop \<open>for token in uniq_tokens\<close>: append the token, then store its
  position \<open>len(self.idx_to_token) - 1\<close> in the dictionary.\<close>

definition assign_index ::
  "token \<Rightarrow> token list \<times> (token \<rightharpoonup> nat) \<Rightarrow> token list \<times> (token \<rightharpoonup> nat)" where
  "assign_index token st =
     (let idx_to_token = fst st @ [token]
      in (idx_to_token, (snd st)(token \<mapsto> length idx_to_token - 1)))"

text \<open>
  \<open>Vocab.__init__\<close>. The arguments \<open>tokens\<close> and \<open>reserved_tokens\<close> default to \<open>None\<close>.
  The condition \<open>token not in uniq_tokens\<close> of the list comprehension reads the list as
  it is before \<open>+=\<close> extends it: \<open>['<unk>'] + reserved_tokens\<close>.
\<close>

definition Vocab :: "tokens option \<Rightarrow> int \<Rightarrow> token list option \<Rightarrow> vocab" where
  "Vocab tokens min_freq reserved_tokens =
     (let tokens = (case tokens of None \<Rightarrow> Flat [] | Some ts \<Rightarrow> ts);
          reserved_tokens = (case reserved_tokens of None \<Rightarrow> [] | Some rs \<Rightarrow> rs);
          counter = count_corpus tokens;
          token_freqs = sorted_reverse snd counter;
          uniq_tokens = [''<unk>''] @ reserved_tokens;
          uniq_tokens = uniq_tokens @
            map fst (filter (\<lambda>(token, freq). min_freq \<le> int freq \<and> token \<notin> set uniq_tokens)
                       token_freqs);
          built = fold assign_index uniq_tokens ([], Map.empty)
      in \<lparr>token_freqs = token_freqs, unk = 0,
          idx_to_token = fst built, token_to_idx = snd built\<rparr>)"

text \<open>\<open>Vocab.__len__\<close>.\<close>

definition len :: "vocab \<Rightarrow> nat" where
  "len v = length (idx_to_token v)"

text \<open>
  \<open>Vocab.__getitem__\<close>: an argument that is not a list or a tuple is looked up with
  \<open>self.token_to_idx.get(tokens, self.unk)\<close>; a list or a tuple is mapped elementwise,
  recursively, and the result is a list.
\<close>

datatype pyarg = Tok token | PList "pyarg list" | PTuple "pyarg list"

datatype pyres = Idx nat | RList "pyres list"

definition dict_get :: "('k \<rightharpoonup> 'v) \<Rightarrow> 'k \<Rightarrow> 'v \<Rightarrow> 'v" where
  "dict_get d k dflt = (case d k of Some x \<Rightarrow> x | None \<Rightarrow> dflt)"

fun getitem :: "vocab \<Rightarrow> pyarg \<Rightarrow> pyres" where
  "getitem v (Tok t) = Idx (dict_get (token_to_idx v) t (unk v))"
| "getitem v (PList ts) = RList (map (getitem v) ts)"
| "getitem v (PTuple ts) = RList (map (getitem v) ts)"

text \<open>
  Python list indexing \<open>xs[i]\<close>: a negative index counts from the end, and an index outside
  \<open>[-len(xs), len(xs))\<close> raises \<open>IndexError\<close>.
\<close>

definition list_index :: "'a list \<Rightarrow> int \<Rightarrow> error + 'a" where
  "list_index xs i =
     (let n = int (length xs); j = (if i < 0 then i + n else i)
      in if 0 \<le> j \<and> j < n then Inr (xs ! nat j) else Inl IndexError)"

fun list_index_all :: "'a list \<Rightarrow> int list \<Rightarrow> error + 'a list" where
  "list_index_all xs [] = Inr []"
| "list_index_all xs (i # is) =
     (case list_index xs i of
        Inl e \<Rightarrow> Inl e
      | Inr x \<Rightarrow> (case list_index_all xs is of Inl e \<Rightarrow> Inl e | Inr ys \<Rightarrow> Inr (x # ys)))"

text \<open>
  \<open>Vocab.to_tokens\<close>: a single index, or a list or tuple of indices (not nested). The
  method is written in state-passing style: it returns its result and the vocabulary
  after the call.
\<close>

datatype indices = Index int | Indices "int list"

datatype tokens_out = Token token | Tokens "token list"

fun to_tokens :: "vocab \<Rightarrow> indices \<Rightarrow> (error + tokens_out) \<times> vocab" where
  "to_tokens v (Index i) = (map_sum id Token (list_index (idx_to_token v) i), v)"
| "to_tokens v (Indices is) = (map_sum id Tokens (list_index_all (idx_to_token v) is), v)"

subsection \<open>Putting it together: \<open>load_corpus_time_machine\<close>\<close>

text \<open>
  \<open>Vocab(tokens)\<close> accepts \<open>None\<close>, but the comprehension over \<open>tokens\<close> that follows
  would raise \<open>TypeError\<close> on it. In \<open>vocab[token]\<close> the argument is a string.
\<close>

definition load_corpus_time_machine ::
  "string list option \<Rightarrow> int \<Rightarrow> error + (pyres list \<times> vocab)" where
  "load_corpus_time_machine file max_tokens =
     (case read_time_machine file of
        Inl e \<Rightarrow> Inl e
      | Inr lines \<Rightarrow>
          (case fst (tokenize lines ''char'') of
             Inl e \<Rightarrow> Inl e
           | Inr tokens \<Rightarrow>
               (let vocab = Vocab (map_option Nested tokens) 0 None
                in case tokens of
                     None \<Rightarrow> Inl TypeError
                   | Some tokens \<Rightarrow>
                       (let corpus = concat (map (\<lambda>line. map (\<lambda>token. getitem vocab (Tok token)) line)
                                               tokens);
                            corpus = (if max_tokens > 0 then take (nat max_tokens) corpus
                                      else corpus)
                        in Inr (corpus, vocab)))))"

subsection \<open>Notions used to state the properties\<close>

text \<open>\<open>sep.join(tokens)\<close>.\<close>

fun join :: "string \<Rightarrow> string list \<Rightarrow> string" where
  "join sep [] = []"
| "join sep [t] = t"
| "join sep (t # ts) = t @ sep @ join sep ts"

text \<open>The flat list of corpus tokens and the reserved tokens that \<open>Vocab\<close> works on.\<close>

definition corpus_of :: "tokens option \<Rightarrow> token list" where
  "corpus_of tokens = (case tokens of None \<Rightarrow> [] | Some ts \<Rightarrow> as_list ts)"

definition reserved_of :: "token list option \<Rightarrow> token list" where
  "reserved_of reserved_tokens = (case reserved_tokens of None \<Rightarrow> [] | Some rs \<Rightarrow> rs)"

text \<open>The tokens that the list comprehension of \<open>Vocab.__init__\<close> appends.\<close>

definition corpus_part :: "tokens option \<Rightarrow> int \<Rightarrow> token list option \<Rightarrow> token list" where
  "corpus_part tokens min_freq reserved_tokens =
     map fst (filter (\<lambda>(token, freq). min_freq \<le> int freq \<and>
                        token \<notin> set (''<unk>'' # reserved_of reserved_tokens))
                (sorted_reverse snd (Counter (corpus_of tokens))))"

text \<open>The position at which \<open>x\<close> is first met in \<open>xs\<close>.\<close>

definition first_index :: "'a list \<Rightarrow> 'a \<Rightarrow> nat" where
  "first_index xs x = length (takeWhile (\<lambda>y. y \<noteq> x) xs)"

text \<open>
  The order of the corpus tokens in the vocabulary: higher frequency first, and among
  tokens of equal frequency the one met first.
\<close>

definition placed_before :: "token list \<Rightarrow> token \<Rightarrow> token \<Rightarrow> bool" where
  "placed_before corpus a b \<longleftrightarrow>
     count_list corpus a > count_list corpus b \<or>
     (count_list corpus a = count_list corpus b \<and> first_index corpus a < first_index corpus b)"

text \<open>
  The size formula as the specification words it: one for the unknown token, the
  reserved tokens other than the unknown token, and the distinct corpus tokens of
  frequency at least \<open>min_freq\<close> that are not reserved.
\<close>

definition claimed_size :: "tokens option \<Rightarrow> int \<Rightarrow> token list option \<Rightarrow> nat" where
  "claimed_size tokens min_freq reserved_tokens =
     1 + length (filter (\<lambda>t. t \<noteq> ''<unk>'') (reserved_of reserved_tokens))
       + length (remdups (filter (\<lambda>t. min_freq \<le> int (count_list (corpus_of tokens) t) \<and>
                                     t \<notin> set (reserved_of reserved_tokens))
                           (corpus_of tokens)))"

text \<open>
  The shape of a normalized line: the only whitespace is the space, no two spaces are
  adjacent, and the line neither starts nor ends with whitespace.
\<close>

definition single_spaced :: "string \<Rightarrow> bool" where
  "single_spaced s \<longleftrightarrow> successively (\<lambda>a b. \<not> (a = CHR '' '' \<and> b = CHR '' '')) s"

definition tidy :: "string \<Rightarrow> bool" where
  "tidy s \<longleftrightarrow>
     (\<forall>c \<in> set s. isspace c \<longrightarrow> c = CHR '' '') \<and> single_spaced s \<and>
     (s \<noteq> [] \<longrightarrow> \<not> isspace (hd s) \<and> \<not> isspace (last s))"

section \<open>Properties of the vocabulary\<close>

subsection \<open>The index assignment loop\<close>

lemma fst_assign_index: "fst (assign_index t st) = fst st @ [t]"
  by (simp add: assign_index_def Let_def)

lemma snd_assign_index: "snd (assign_index t st) = (snd st)(t \<mapsto> length (fst st))"
  by (simp add: assign_index_def Let_def)

lemmas assign_index_simps = fst_assign_index snd_assign_index

lemma fst_fold_assign: "fst (fold assign_index ts st) = fst st @ ts"
  by (induction ts arbitrary: st) (simp_all add: assign_index_simps)

lemma snd_fold_assign_notin:
  "t \<notin> set ts \<Longrightarrow> snd (fold assign_index ts st) t = snd st t"
  by (induction ts arbitrary: st) (simp_all add: assign_index_simps)

lemma snd_fold_assign_in:
  "t \<in> set ts \<Longrightarrow>
   \<exists>i. snd (fold assign_index ts st) t = Some i \<and> length (fst st) \<le> i \<and>
       i < length (fst st) + length ts \<and> (fst st @ ts) ! i = t"
proof (induction ts rule: rev_induct)
  case Nil
  then show ?case by simp
next
  case (snoc x xs)
  show ?case
  proof (cases "t = x")
    case True
    then show ?thesis
      by (simp add: assign_index_simps fst_fold_assign nth_append)
  next
    case False
    with snoc.prems have "t \<in> set xs" by simp
    from snoc.IH [OF this] obtain i where i:
      "snd (fold assign_index xs st) t = Some i" "length (fst st) \<le> i"
      "i < length (fst st) + length xs" "(fst st @ xs) ! i = t"
      by blast
    from i(3,4) have "(fst st @ xs @ [x]) ! i = t"
      by (metis append.assoc length_append nth_append)
    with i False show ?thesis
      by (simp add: assign_index_simps fst_fold_assign)
  qed
qed

lemma snd_fold_assign_distinct:
  "distinct ts \<Longrightarrow> j < length ts \<Longrightarrow>
   snd (fold assign_index ts st) (ts ! j) = Some (length (fst st) + j)"
proof (induction ts arbitrary: j rule: rev_induct)
  case Nil
  then show ?case by simp
next
  case (snoc x xs)
  show ?case
  proof (cases "j < length xs")
    case True
    with snoc.prems have "xs ! j \<noteq> x" by (auto simp: in_set_conv_nth)
    with True snoc show ?thesis
      by (simp add: assign_index_simps fst_fold_assign nth_append)
  next
    case False
    with snoc.prems have "j = length xs" by simp
    then show ?thesis
      by (simp add: assign_index_simps fst_fold_assign)
  qed
qed

subsection \<open>Counting\<close>

lemma Counter_snoc: "Counter (xs @ [x]) = counter_add x (Counter xs)"
  by (simp add: Counter_def)

lemma keys_counter_add:
  "map fst (counter_add x kvs) = (if x \<in> fst ` set kvs then map fst kvs else map fst kvs @ [x])"
  by (induction kvs) force+

lemma map_of_counter_add:
  "map_of (counter_add x kvs) =
   (map_of kvs)(x \<mapsto> (case map_of kvs x of None \<Rightarrow> 1 | Some n \<Rightarrow> n + 1))"
  by (induction kvs) (auto simp: fun_eq_iff)

lemma set_keys_Counter: "fst ` set (Counter xs) = set xs"
proof (induction xs rule: rev_induct)
  case Nil
  show ?case by (simp add: Counter_def)
next
  case (snoc x xs)
  have "set (map fst (Counter (xs @ [x]))) = insert x (set (map fst (Counter xs)))"
    unfolding Counter_snoc keys_counter_add by auto
  with snoc show ?case by simp
qed

lemma keys_Counter_snoc:
  "map fst (Counter (xs @ [x])) =
   (if x \<in> set xs then map fst (Counter xs) else map fst (Counter xs) @ [x])"
  by (simp add: Counter_snoc keys_counter_add set_keys_Counter)

lemma distinct_keys_Counter: "distinct (map fst (Counter xs))"
proof (induction xs rule: rev_induct)
  case Nil
  show ?case by (simp add: Counter_def)
next
  case (snoc x xs)
  have "x \<notin> set xs \<Longrightarrow> x \<notin> set (map fst (Counter xs))"
    using set_keys_Counter [of xs] by simp
  with snoc show ?case by (simp add: keys_Counter_snoc)
qed

lemma map_of_Counter:
  "map_of (Counter xs) t = (if t \<in> set xs then Some (count_list xs t) else None)"
proof (induction xs arbitrary: t rule: rev_induct)
  case Nil
  show ?case by (simp add: Counter_def)
next
  case (snoc x xs)
  show ?case
    by (simp add: Counter_snoc map_of_counter_add snoc)
qed

lemma Counter_count: "(t, n) \<in> set (Counter xs) \<Longrightarrow> t \<in> set xs \<and> n = count_list xs t"
proof -
  assume a: "(t, n) \<in> set (Counter xs)"
  then have "map_of (Counter xs) t = Some n"
    using distinct_keys_Counter [of xs] by simp
  then show ?thesis by (simp add: map_of_Counter split: if_splits)
qed

lemma first_index_less: "x \<in> set xs \<Longrightarrow> first_index xs x < length xs"
  unfolding first_index_def by (induction xs) auto

lemma first_index_snoc_in: "a \<in> set xs \<Longrightarrow> first_index (xs @ [x]) a = first_index xs a"
  unfolding first_index_def by (simp add: takeWhile_append1)

lemma first_index_snoc_new: "x \<notin> set xs \<Longrightarrow> first_index (xs @ [x]) x = length xs"
  unfolding first_index_def by (induction xs) auto

lemma keys_Counter_first_seen:
  "sorted_wrt (\<lambda>a b. first_index xs a < first_index xs b) (map fst (Counter xs))"
proof (induction xs rule: rev_induct)
  case Nil
  show ?case by (simp add: Counter_def)
next
  case (snoc x xs)
  have keys: "set (map fst (Counter xs)) = set xs"
    using set_keys_Counter [of xs] by simp
  have old: "sorted_wrt (\<lambda>a b. first_index (xs @ [x]) a < first_index (xs @ [x]) b)
               (map fst (Counter xs))"
    using snoc keys
    by (auto intro!: sorted_wrt_mono_rel [OF _ snoc] simp: first_index_snoc_in)
  show ?case
  proof (cases "x \<in> set xs")
    case True
    with old show ?thesis by (simp add: keys_Counter_snoc)
  next
    case False
    then show ?thesis
      using old keys
      by (auto simp: keys_Counter_snoc sorted_wrt_append first_index_snoc_in
          first_index_snoc_new first_index_less)
  qed
qed

lemma count_corpus_as_list: "count_corpus tokens = Counter (as_list tokens)"
  by (cases tokens) (auto simp: count_corpus_def)

subsection \<open>The stable descending sort\<close>

lemma set_sorted_reverse: "set (sorted_reverse key xs) = set xs"
  by (simp add: sorted_reverse_def)

lemma distinct_sorted_reverse: "distinct (sorted_reverse key xs) = distinct xs"
  by (simp add: sorted_reverse_def)

lemma sorted_reverse_descending:
  "sorted_wrt (\<lambda>a b. key a \<ge> key b) (sorted_reverse key xs)"
proof -
  have "sorted (map key (sort_key key (rev xs)))" by (rule sorted_sort_key)
  then have "sorted_wrt (\<lambda>a b. key a \<le> key b) (sort_key key (rev xs))"
    by (simp add: sorted_map)
  then show ?thesis
    by (simp add: sorted_reverse_def sorted_wrt_rev)
qed

lemma sorted_reverse_stable:
  "filter (\<lambda>y. key y = k) (sorted_reverse key xs) = filter (\<lambda>y. key y = k) xs"
proof -
  have "filter (\<lambda>y. key y = k) (sorted_reverse key xs)
        = rev (filter (\<lambda>y. key y = k) (sort_key key (rev xs)))"
    by (simp add: sorted_reverse_def rev_filter)
  also have "\<dots> = rev (filter (\<lambda>y. key y = k) (rev xs))"
    by (simp only: sort_key_stable)
  also have "\<dots> = filter (\<lambda>y. key y = k) xs"
    by (simp add: rev_filter)
  finally show ?thesis .
qed

lemma sorted_wrt_ties:
  fixes key :: "'a \<Rightarrow> 'k::linorder"
  assumes "sorted_wrt (\<lambda>a b. key a \<ge> key b) xs"
    and "\<And>k. sorted_wrt R (filter (\<lambda>y. key y = k) xs)"
  shows "sorted_wrt (\<lambda>a b. key a > key b \<or> (key a = key b \<and> R a b)) xs"
  using assms
proof (induction xs)
  case Nil
  show ?case by simp
next
  case (Cons x xs)
  have tl: "sorted_wrt R (filter (\<lambda>y. key y = k) xs)" for k
    using Cons.prems(2) [of k] by (simp split: if_splits)
  have hd: "key y < key x \<or> (key x = key y \<and> R x y)" if "y \<in> set xs" for y
  proof (cases "key y = key x")
    case True
    with Cons.prems(2) [of "key x"] that show ?thesis by auto
  next
    case False
    with Cons.prems(1) that show ?thesis by (auto simp: order_less_le)
  qed
  from Cons.prems(1) have "sorted_wrt (\<lambda>a b. key a \<ge> key b) xs" by simp
  from Cons.IH [OF this tl] hd show ?case by auto
qed

lemma sorted_reverse_ties:
  assumes "sorted_wrt R xs"
  shows "sorted_wrt (\<lambda>a b. key a > key b \<or> (key a = key b \<and> R a b)) (sorted_reverse key xs)"
proof (rule sorted_wrt_ties)
  show "sorted_wrt (\<lambda>a b. key a \<ge> key b) (sorted_reverse key xs)"
    by (rule sorted_reverse_descending)
next
  fix k
  show "sorted_wrt R (filter (\<lambda>y. key y = k) (sorted_reverse key xs))"
    unfolding sorted_reverse_stable using assms by (rule sorted_wrt_filter)
qed

subsection \<open>The fields of a built vocabulary\<close>

lemma token_freqs_Vocab:
  "token_freqs (Vocab tokens min_freq reserved_tokens)
   = sorted_reverse snd (Counter (corpus_of tokens))"
  by (cases tokens)
     (simp_all add: Vocab_def Let_def corpus_of_def count_corpus_as_list)

lemma idx_to_token_Vocab:
  "idx_to_token (Vocab tokens min_freq reserved_tokens)
   = ''<unk>'' # reserved_of reserved_tokens @ corpus_part tokens min_freq reserved_tokens"
  by (cases tokens; cases reserved_tokens)
     (simp_all add: Vocab_def Let_def fst_fold_assign corpus_part_def corpus_of_def
        reserved_of_def count_corpus_as_list)

lemma token_to_idx_Vocab:
  "token_to_idx (Vocab tokens min_freq reserved_tokens)
   = snd (fold assign_index (idx_to_token (Vocab tokens min_freq reserved_tokens))
            ([], Map.empty))"
  unfolding idx_to_token_Vocab
  by (cases tokens; cases reserved_tokens)
     (simp_all add: Vocab_def Let_def corpus_part_def corpus_of_def
        reserved_of_def count_corpus_as_list)

lemma unk_Vocab: "unk (Vocab tokens min_freq reserved_tokens) = 0"
  by (simp add: Vocab_def Let_def)

lemma distinct_corpus_part: "distinct (corpus_part tokens min_freq reserved_tokens)"
proof -
  have "distinct (map fst (sorted_reverse snd (Counter (corpus_of tokens))))"
    using distinct_keys_Counter [of "corpus_of tokens"]
    by (simp add: sorted_reverse_def distinct_map inj_on_def)
  then show ?thesis
    unfolding corpus_part_def by (simp add: distinct_map_filter)
qed

lemma set_corpus_part:
  "set (corpus_part tokens min_freq reserved_tokens)
   = {t \<in> set (corpus_of tokens). min_freq \<le> int (count_list (corpus_of tokens) t) \<and>
        t \<noteq> ''<unk>'' \<and> t \<notin> set (reserved_of reserved_tokens)}"
proof -
  have in_counter: "(t, count_list (corpus_of tokens) t) \<in> set (Counter (corpus_of tokens))"
    if "t \<in> set (corpus_of tokens)" for t
    using map_of_Counter [of "corpus_of tokens" t] that by (auto dest: map_of_SomeD)
  show ?thesis
  proof (intro set_eqI iffI)
    fix t
    assume "t \<in> set (corpus_part tokens min_freq reserved_tokens)"
    then obtain n where "(t, n) \<in> set (Counter (corpus_of tokens))"
      "min_freq \<le> int n" "t \<noteq> ''<unk>''" "t \<notin> set (reserved_of reserved_tokens)"
      unfolding corpus_part_def by (auto simp: set_sorted_reverse)
    with Counter_count [of t n "corpus_of tokens"]
    show "t \<in> {t \<in> set (corpus_of tokens).
             min_freq \<le> int (count_list (corpus_of tokens) t) \<and>
             t \<noteq> ''<unk>'' \<and> t \<notin> set (reserved_of reserved_tokens)}"
      by simp
  next
    fix t
    assume "t \<in> {t \<in> set (corpus_of tokens).
             min_freq \<le> int (count_list (corpus_of tokens) t) \<and>
             t \<noteq> ''<unk>'' \<and> t \<notin> set (reserved_of reserved_tokens)}"
    then have "(t, count_list (corpus_of tokens) t) \<in> set (Counter (corpus_of tokens))"
      "min_freq \<le> int (count_list (corpus_of tokens) t)" "t \<noteq> ''<unk>''"
      "t \<notin> set (reserved_of reserved_tokens)"
      using in_counter by simp_all
    then show "t \<in> set (corpus_part tokens min_freq reserved_tokens)"
      unfolding corpus_part_def by (force simp: set_sorted_reverse)
  qed
qed

lemma sorted_corpus_part:
  "sorted_wrt (placed_before (corpus_of tokens)) (corpus_part tokens min_freq reserved_tokens)"
proof -
  let ?c = "corpus_of tokens"
  let ?R = "\<lambda>p q. first_index ?c (fst p) < first_index ?c (fst q)"
  let ?tf = "sorted_reverse snd (Counter ?c)"
  have "sorted_wrt ?R (Counter ?c)"
    using keys_Counter_first_seen [of ?c] by (simp add: sorted_wrt_map)
  then have "sorted_wrt (\<lambda>p q. snd p > snd q \<or> (snd p = snd q \<and> ?R p q)) ?tf"
    by (rule sorted_reverse_ties)
  then have "sorted_wrt (\<lambda>p q. placed_before ?c (fst p) (fst q)) ?tf"
  proof (rule sorted_wrt_mono_rel [rotated])
    fix p q
    assume "p \<in> set ?tf" "q \<in> set ?tf"
      and "snd p > snd q \<or> (snd p = snd q \<and> ?R p q)"
    moreover from \<open>p \<in> set ?tf\<close> have "snd p = count_list ?c (fst p)"
      using Counter_count [of "fst p" "snd p" ?c] by (simp add: set_sorted_reverse)
    moreover from \<open>q \<in> set ?tf\<close> have "snd q = count_list ?c (fst q)"
      using Counter_count [of "fst q" "snd q" ?c] by (simp add: set_sorted_reverse)
    ultimately show "placed_before ?c (fst p) (fst q)"
      by (simp add: placed_before_def)
  qed
  then show ?thesis
    unfolding corpus_part_def by (simp add: sorted_wrt_map sorted_wrt_filter)
qed

lemma len_Vocab:
  "len (Vocab tokens min_freq reserved_tokens)
   = 1 + length (reserved_of reserved_tokens) + length (corpus_part tokens min_freq reserved_tokens)"
  by (simp add: len_def idx_to_token_Vocab)

lemma length_filter_mono:
  "(\<And>x. x \<in> set xs \<Longrightarrow> P x \<Longrightarrow> Q x) \<Longrightarrow> length (filter P xs) \<le> length (filter Q xs)"
  by (induction xs) auto

lemma token_to_idx_Vocab_in:
  assumes "t \<in> set (idx_to_token (Vocab tokens m rs))"
  shows "\<exists>i. token_to_idx (Vocab tokens m rs) t = Some i \<and> i < len (Vocab tokens m rs) \<and>
             idx_to_token (Vocab tokens m rs) ! i = t"
  using snd_fold_assign_in [OF assms, of "([], Map.empty)"]
  by (auto simp: token_to_idx_Vocab [symmetric] len_def)

lemma token_to_idx_Vocab_notin:
  assumes "t \<notin> set (idx_to_token (Vocab tokens m rs))"
  shows "token_to_idx (Vocab tokens m rs) t = None"
  using snd_fold_assign_notin [OF assms, of "([], Map.empty)"]
  by (simp add: token_to_idx_Vocab [symmetric])

lemma dom_token_to_idx_Vocab:
  "dom (token_to_idx (Vocab tokens m rs)) = set (idx_to_token (Vocab tokens m rs))"
proof (intro set_eqI iffI)
  fix t assume "t \<in> dom (token_to_idx (Vocab tokens m rs))"
  then show "t \<in> set (idx_to_token (Vocab tokens m rs))"
    using token_to_idx_Vocab_notin [of t tokens m rs] by (cases "t \<in> set (idx_to_token (Vocab tokens m rs))") (auto simp: dom_def)
next
  fix t assume "t \<in> set (idx_to_token (Vocab tokens m rs))"
  from token_to_idx_Vocab_in [OF this] show "t \<in> dom (token_to_idx (Vocab tokens m rs))"
    by (auto simp: dom_def)
qed

lemma token_to_idx_Vocab_Some:
  assumes "token_to_idx (Vocab tokens m rs) t = Some i"
  shows "i < len (Vocab tokens m rs) \<and> idx_to_token (Vocab tokens m rs) ! i = t"
proof -
  from assms have "t \<in> set (idx_to_token (Vocab tokens m rs))"
    using token_to_idx_Vocab_notin [of t tokens m rs] by (cases "t \<in> set (idx_to_token (Vocab tokens m rs))") auto
  from token_to_idx_Vocab_in [OF this] assms show ?thesis by auto
qed

lemma distinct_idx_to_token_Vocab:
  assumes "distinct (''<unk>'' # reserved_of rs)"
  shows "distinct (idx_to_token (Vocab tokens m rs))"
  using assms distinct_corpus_part [of tokens m rs] set_corpus_part [of tokens m rs]
  by (auto simp: idx_to_token_Vocab)

lemma token_to_idx_Vocab_distinct:
  assumes "distinct (''<unk>'' # reserved_of rs)" and "i < len (Vocab tokens m rs)"
  shows "token_to_idx (Vocab tokens m rs) (idx_to_token (Vocab tokens m rs) ! i) = Some i"
  using snd_fold_assign_distinct [OF distinct_idx_to_token_Vocab [OF assms(1)], of i tokens m "([], Map.empty)"]
    assms(2)
  by (simp add: token_to_idx_Vocab [symmetric] len_def)

lemmas vocab_eval = Vocab_def count_corpus_def Counter_def sorted_reverse_def assign_index_def
  Let_def len_def corpus_of_def reserved_of_def

subsection \<open>Index order and size\<close>

text \<open>
  Claim C2, as the code has it. The index order is the unknown token, then the reserved
  tokens in the order supplied, then the distinct corpus tokens of frequency at least
  \<open>min_freq\<close> that are neither \<open><unk>\<close> nor reserved, by descending frequency, and
  among tokens of equal frequency by first occurrence in the corpus. The corpus never
  places a reserved token again; a token that occurs once in \<open>['<unk>'] + reserved_tokens\<close>
  occurs once in the index order.
\<close>

theorem vocab_index_order:
  fixes tokens min_freq reserved_tokens
  defines "V \<equiv> Vocab tokens min_freq reserved_tokens"
    and "corpus \<equiv> corpus_of tokens"
    and "reserved \<equiv> reserved_of reserved_tokens"
  shows "\<exists>seg. idx_to_token V = ''<unk>'' # reserved @ seg
       \<and> distinct seg
       \<and> set seg = {t \<in> set corpus. min_freq \<le> int (count_list corpus t) \<and>
                       t \<noteq> ''<unk>'' \<and> t \<notin> set reserved}
       \<and> sorted_wrt (placed_before corpus) seg
       \<and> (\<forall>t \<in> set reserved. t \<notin> set seg)
       \<and> (\<forall>t. t \<in> set reserved \<and> count_list (''<unk>'' # reserved) t = 1
              \<longrightarrow> count_list (idx_to_token V) t = 1)"
proof (intro exI [of _ "corpus_part tokens min_freq reserved_tokens"] conjI allI impI ballI)
  let ?seg = "corpus_part tokens min_freq reserved_tokens"
  show eq: "idx_to_token V = ''<unk>'' # reserved @ ?seg"
    by (simp add: V_def reserved_def idx_to_token_Vocab)
  show "distinct ?seg" by (rule distinct_corpus_part)
  show set: "set ?seg = {t \<in> set corpus. min_freq \<le> int (count_list corpus t) \<and>
                       t \<noteq> ''<unk>'' \<and> t \<notin> set reserved}"
    unfolding corpus_def reserved_def by (rule set_corpus_part)
  show "sorted_wrt (placed_before corpus) ?seg"
    unfolding corpus_def by (rule sorted_corpus_part)
  show "t \<notin> set ?seg" if "t \<in> set reserved" for t
    using that set by simp
  show "count_list (idx_to_token V) t = 1"
    if "t \<in> set reserved \<and> count_list (''<unk>'' # reserved) t = 1" for t
  proof -
    from that set have "count_list ?seg t = 0" by (simp add: count_list_0_iff)
    with that show ?thesis
      unfolding eq by (simp split: if_splits)
  qed
qed

theorem vocab_index_order_witness:
  "''b'' \<in> set (reserved_of (Some [''<pad>'', ''b'']))
   \<and> count_list (''<unk>'' # reserved_of (Some [''<pad>'', ''b''])) ''b'' = 1
   \<and> count_list (idx_to_token (Vocab (Some (Nested [[''a'', ''b''], [''b'']])) 0
                                  (Some [''<pad>'', ''b'']))) ''b'' = 1
   \<and> idx_to_token (Vocab (Some (Nested [[''a'', ''b''], [''b'']])) 0 (Some [''<pad>'', ''b'']))
       = [''<unk>'', ''<pad>'', ''b'', ''a'']"
proof -
  have h: "''b'' \<in> set (reserved_of (Some [''<pad>'', ''b'']))
    \<and> count_list (''<unk>'' # reserved_of (Some [''<pad>'', ''b''])) ''b'' = 1"
    by (simp add: reserved_of_def)
  from vocab_index_order [of "Some (Nested [[''a'', ''b''], [''b'']])" 0 "Some [''<pad>'', ''b'']"]
  obtain seg where
    "\<forall>t. t \<in> set (reserved_of (Some [''<pad>'', ''b''])) \<and>
         count_list (''<unk>'' # reserved_of (Some [''<pad>'', ''b''])) t = 1 \<longrightarrow>
         count_list (idx_to_token (Vocab (Some (Nested [[''a'', ''b''], [''b'']])) 0
                                  (Some [''<pad>'', ''b'']))) t = 1"
    by blast
  with h have "count_list (idx_to_token (Vocab (Some (Nested [[''a'', ''b''], [''b'']])) 0
                                  (Some [''<pad>'', ''b'']))) ''b'' = 1"
    by blast
  moreover have "idx_to_token (Vocab (Some (Nested [[''a'', ''b''], [''b'']])) 0 (Some [''<pad>'', ''b'']))
       = [''<unk>'', ''<pad>'', ''b'', ''a'']"
    by (simp add: vocab_eval)
  ultimately show ?thesis using h by simp
qed

text \<open>
  With \<open>reserved_tokens = ['a', 'a']\<close> the token \<open>a\<close>, which is also in the corpus, is
  placed twice.
\<close>

theorem vocab_index_order_counterexample:
  "''a'' \<in> set (reserved_of (Some [''a'', ''a''])) \<and> ''a'' \<in> set (corpus_of (Some (Flat [''a''])))
   \<and> idx_to_token (Vocab (Some (Flat [''a''])) 0 (Some [''a'', ''a''])) = [''<unk>'', ''a'', ''a'']
   \<and> count_list (idx_to_token (Vocab (Some (Flat [''a''])) 0 (Some [''a'', ''a'']))) ''a'' = 2"
  by (simp add: vocab_eval)

text \<open>
  Claim C5, as the code has it. \<open>len\<close> is one, plus the number of reserved tokens as
  supplied (repetitions and \<open><unk>\<close> included), plus the number of distinct corpus
  tokens of frequency at least \<open>min_freq\<close> that are neither \<open><unk>\<close> nor reserved. When
  \<open><unk>\<close> is neither reserved nor in the corpus, this is the formula of the
  specification.
\<close>

theorem vocab_len_formula:
  fixes tokens min_freq reserved_tokens
  defines "corpus \<equiv> corpus_of tokens" and "reserved \<equiv> reserved_of reserved_tokens"
  shows "len (Vocab tokens min_freq reserved_tokens)
         = 1 + length reserved
             + card {t \<in> set corpus. min_freq \<le> int (count_list corpus t) \<and>
                       t \<noteq> ''<unk>'' \<and> t \<notin> set reserved}
       \<and> (''<unk>'' \<notin> set reserved \<and> ''<unk>'' \<notin> set corpus \<longrightarrow>
            len (Vocab tokens min_freq reserved_tokens)
            = claimed_size tokens min_freq reserved_tokens)"
proof
  have "length (corpus_part tokens min_freq reserved_tokens)
        = card (set (corpus_part tokens min_freq reserved_tokens))"
    using distinct_corpus_part [of tokens min_freq reserved_tokens]
    by (simp add: distinct_card)
  then show size: "len (Vocab tokens min_freq reserved_tokens)
         = 1 + length reserved
             + card {t \<in> set corpus. min_freq \<le> int (count_list corpus t) \<and>
                       t \<noteq> ''<unk>'' \<and> t \<notin> set reserved}"
    by (simp add: len_Vocab set_corpus_part corpus_def reserved_def)
  show "''<unk>'' \<notin> set reserved \<and> ''<unk>'' \<notin> set corpus \<longrightarrow>
          len (Vocab tokens min_freq reserved_tokens)
          = claimed_size tokens min_freq reserved_tokens"
  proof
    assume a: "''<unk>'' \<notin> set reserved \<and> ''<unk>'' \<notin> set corpus"
    then have "filter (\<lambda>t. t \<noteq> ''<unk>'') reserved = reserved"
      by (auto simp: filter_id_conv)
    moreover from a have "{t \<in> set corpus. min_freq \<le> int (count_list corpus t) \<and>
                       t \<noteq> ''<unk>'' \<and> t \<notin> set reserved}
        = set (filter (\<lambda>t. min_freq \<le> int (count_list corpus t) \<and> t \<notin> set reserved) corpus)"
      by auto
    ultimately show "len (Vocab tokens min_freq reserved_tokens)
          = claimed_size tokens min_freq reserved_tokens"
      unfolding size claimed_size_def
      by (simp add: length_remdups_card_conv corpus_def reserved_def)
  qed
qed

theorem vocab_len_formula_witness:
  "''<unk>'' \<notin> set (reserved_of (Some [''<pad>'']))
   \<and> ''<unk>'' \<notin> set (corpus_of (Some (Nested [[''a'', ''a'', ''b'']])))
   \<and> len (Vocab (Some (Nested [[''a'', ''a'', ''b'']])) 0 (Some [''<pad>''])) = 4
   \<and> claimed_size (Some (Nested [[''a'', ''a'', ''b'']])) 0 (Some [''<pad>'']) = 4"
proof -
  have h: "''<unk>'' \<notin> set (reserved_of (Some [''<pad>'']))
     \<and> ''<unk>'' \<notin> set (corpus_of (Some (Nested [[''a'', ''a'', ''b'']])))"
    by (simp add: reserved_of_def corpus_of_def)
  have c: "claimed_size (Some (Nested [[''a'', ''a'', ''b'']])) 0 (Some [''<pad>'']) = 4"
    by (simp add: claimed_size_def reserved_of_def corpus_of_def)
  from vocab_len_formula [of "Some (Nested [[''a'', ''a'', ''b'']])" 0 "Some [''<pad>'']"] h c
  show ?thesis by simp
qed

text \<open>
  With \<open>reserved_tokens = ['<unk>']\<close> and no corpus the vocabulary has two entries, where
  the formula of the specification gives one; with the corpus \<open>['<unk>']\<close> and no reserved
  token it has one entry, where the formula gives two.
\<close>

theorem vocab_len_formula_counterexample:
  "len (Vocab None 0 (Some [''<unk>''])) = 2 \<and> claimed_size None 0 (Some [''<unk>'']) = 1
   \<and> len (Vocab (Some (Flat [''<unk>''])) 0 None) = 1
   \<and> claimed_size (Some (Flat [''<unk>''])) 0 None = 2"
  by (simp add: vocab_eval claimed_size_def)

text \<open>
  Claim C8. For fixed tokens and reserved tokens and \<open>m1 \<le> m2\<close>, the vocabulary built
  with \<open>min_freq = m2\<close> is no larger than the one built with \<open>min_freq = m1\<close>.
\<close>

theorem vocab_len_antimono:
  assumes "m1 \<le> m2"
  shows "len (Vocab tokens m2 reserved_tokens) \<le> len (Vocab tokens m1 reserved_tokens)"
proof -
  have "length (corpus_part tokens m2 reserved_tokens)
        \<le> length (corpus_part tokens m1 reserved_tokens)"
    unfolding corpus_part_def length_map
    using assms by (intro length_filter_mono) auto
  then show ?thesis by (simp add: len_Vocab)
qed

theorem vocab_len_antimono_witness:
  "(1::int) \<le> 2
   \<and> len (Vocab (Some (Nested [[''a'', ''b'', ''a''], [''c'']])) 2 None)
     \<le> len (Vocab (Some (Nested [[''a'', ''b'', ''a''], [''c'']])) 1 None)
   \<and> len (Vocab (Some (Nested [[''a'', ''b'', ''a''], [''c'']])) 2 None) = 2
   \<and> len (Vocab (Some (Nested [[''a'', ''b'', ''a''], [''c'']])) 1 None) = 4"
proof -
  have h: "(1::int) \<le> 2" by simp
  have "len (Vocab (Some (Nested [[''a'', ''b'', ''a''], [''c'']])) 2 None) = 2"
    "len (Vocab (Some (Nested [[''a'', ''b'', ''a''], [''c'']])) 1 None) = 4"
    by (simp_all add: vocab_eval)
  with h vocab_len_antimono [OF h, of "Some (Nested [[''a'', ''b'', ''a''], [''c'']])" None]
  show ?thesis by simp
qed

subsection \<open>Forward and reverse lookup\<close>

text \<open>
  Claim C1, as the code has it. Forward lookup is total: every string resolves to an
  index below \<open>len\<close>, and a string that is not in the vocabulary resolves to the unknown
  index 0. Reverse lookup undoes forward lookup on every token that has an index. When
  the reserved tokens are pairwise distinct and none of them is \<open><unk>\<close>, no token occurs
  at two indices and forward lookup undoes reverse lookup on every index below \<open>len\<close>,
  so that the two mappings are bijective and mutually inverse. The reserved tokens are
  placed as supplied, so a repeated reserved token, or \<open><unk>\<close> among them, occupies
  several indices.
\<close>

theorem vocab_lookup_inverse:
  fixes tokens m rs
  defines "V \<equiv> Vocab tokens m rs"
  shows "(\<forall>t. \<exists>i. getitem V (Tok t) = Idx i \<and> i < len V)
       \<and> (\<forall>t. t \<notin> set (idx_to_token V) \<longrightarrow> getitem V (Tok t) = Idx 0)
       \<and> (\<forall>t i. token_to_idx V t = Some i \<longrightarrow> i < len V \<and> idx_to_token V ! i = t)
       \<and> (distinct (''<unk>'' # reserved_of rs) \<longrightarrow>
            distinct (idx_to_token V)
          \<and> (\<forall>i < len V. token_to_idx V (idx_to_token V ! i) = Some i))"
proof (intro conjI allI impI)
  fix t
  show "\<exists>i. getitem V (Tok t) = Idx i \<and> i < len V"
  proof (cases "token_to_idx V t")
    case None
    then show ?thesis
      by (simp add: dict_get_def V_def unk_Vocab len_Vocab)
  next
    case (Some i)
    with token_to_idx_Vocab_Some [of tokens m rs t i] show ?thesis
      by (simp add: dict_get_def V_def)
  qed
next
  fix t assume "t \<notin> set (idx_to_token V)"
  then show "getitem V (Tok t) = Idx 0"
    by (simp add: V_def dict_get_def token_to_idx_Vocab_notin unk_Vocab)
next
  fix t i assume "token_to_idx V t = Some i"
  then show "i < len V" "idx_to_token V ! i = t"
    using token_to_idx_Vocab_Some [of tokens m rs t i] by (simp_all add: V_def)
next
  assume "distinct (''<unk>'' # reserved_of rs)"
  then show "distinct (idx_to_token V)"
    unfolding V_def by (rule distinct_idx_to_token_Vocab)
next
  fix i assume "distinct (''<unk>'' # reserved_of rs)" "i < len V"
  then show "token_to_idx V (idx_to_token V ! i) = Some i"
    unfolding V_def by (rule token_to_idx_Vocab_distinct)
qed

theorem vocab_lookup_inverse_witness:
  "distinct (''<unk>'' # reserved_of (Some [''<pad>'']))
   \<and> (1::nat) < len (Vocab (Some (Flat [''a'', ''b'', ''a''])) 0 (Some [''<pad>'']))
   \<and> token_to_idx (Vocab (Some (Flat [''a'', ''b'', ''a''])) 0 (Some [''<pad>'']))
        (idx_to_token (Vocab (Some (Flat [''a'', ''b'', ''a''])) 0 (Some [''<pad>''])) ! 1) = Some 1
   \<and> ''zz'' \<notin> set (idx_to_token (Vocab (Some (Flat [''a'', ''b'', ''a''])) 0 (Some [''<pad>''])))
   \<and> getitem (Vocab (Some (Flat [''a'', ''b'', ''a''])) 0 (Some [''<pad>''])) (Tok ''zz'') = Idx 0"
proof -
  let ?V = "Vocab (Some (Flat [''a'', ''b'', ''a''])) 0 (Some [''<pad>''])"
  have h1: "distinct (''<unk>'' # reserved_of (Some [''<pad>'']))"
    by (simp add: reserved_of_def)
  have h2: "(1::nat) < len ?V" by (simp add: vocab_eval)
  have h3: "''zz'' \<notin> set (idx_to_token ?V)" by (simp add: vocab_eval)
  from vocab_lookup_inverse [of "Some (Flat [''a'', ''b'', ''a''])" 0 "Some [''<pad>'']"] h1 h2 h3
  show ?thesis by blast
qed

text \<open>
  With \<open>reserved_tokens = ['<unk>']\<close> the indices 0 and 1 both hold \<open><unk>\<close>, and
  forward lookup of \<open><unk>\<close> gives 1: index 0 is not recovered.
\<close>

theorem vocab_lookup_inverse_counterexample:
  "idx_to_token (Vocab None 0 (Some [''<unk>''])) ! 0 = ''<unk>''
   \<and> idx_to_token (Vocab None 0 (Some [''<unk>''])) ! 1 = ''<unk>''
   \<and> token_to_idx (Vocab None 0 (Some [''<unk>''])) ''<unk>'' = Some 1
   \<and> len (Vocab None 0 (Some [''<unk>''])) = 2"
  by (simp add: vocab_eval)

text \<open>
  Claim C6. For every built vocabulary and every token \<open>t\<close>, reverse lookup of the index
  that forward lookup gives for \<open>t\<close> returns \<open>t\<close> when \<open>t\<close> has an index, and \<open><unk>\<close>
  otherwise.
\<close>

theorem vocab_roundtrip:
  fixes tokens m rs
  defines "V \<equiv> Vocab tokens m rs"
  shows "\<exists>i. getitem V (Tok t) = Idx i \<and>
             to_tokens V (Index (int i))
             = (Inr (Token (if t \<in> dom (token_to_idx V) then t else ''<unk>'')), V)"
proof (cases "token_to_idx V t")
  case None
  then have "getitem V (Tok t) = Idx 0"
    by (simp add: dict_get_def V_def unk_Vocab)
  moreover have "to_tokens V (Index (int 0)) = (Inr (Token ''<unk>''), V)"
    by (simp add: list_index_def V_def idx_to_token_Vocab)
  moreover from None have "t \<notin> dom (token_to_idx V)" by (simp add: dom_def)
  ultimately show ?thesis by auto
next
  case (Some i)
  then have "getitem V (Tok t) = Idx i" by (simp add: dict_get_def)
  moreover from Some have "i < length (idx_to_token V)" "idx_to_token V ! i = t"
    using token_to_idx_Vocab_Some [of tokens m rs t i] by (simp_all add: V_def len_def)
  then have "to_tokens V (Index (int i)) = (Inr (Token t), V)"
    by (simp add: list_index_def)
  moreover from Some have "t \<in> dom (token_to_idx V)" by (simp add: dom_def)
  ultimately show ?thesis by auto
qed

text \<open>
  Claim C4, as the code has it. Reverse lookup of a single index \<open>i\<close> fails with
  \<open>IndexError\<close> if and only if \<open>i\<close> is outside \<open>[-len, len)\<close>. For \<open>i\<close> in \<open>[0, len)\<close> it
  returns the token at index \<open>i\<close>, and for \<open>i\<close> in \<open>[-len, 0)\<close> the token at index
  \<open>len + i\<close>. The vocabulary after the call is the vocabulary before it.
\<close>

theorem to_tokens_index:
  "(fst (to_tokens v (Index i)) = Inl IndexError \<longleftrightarrow> i < - int (len v) \<or> int (len v) \<le> i)
   \<and> (0 \<le> i \<and> i < int (len v) \<longrightarrow>
        fst (to_tokens v (Index i)) = Inr (Token (idx_to_token v ! nat i)))
   \<and> (- int (len v) \<le> i \<and> i < 0 \<longrightarrow>
        fst (to_tokens v (Index i)) = Inr (Token (idx_to_token v ! nat (i + int (len v)))))
   \<and> snd (to_tokens v (Index i)) = v"
  by (auto simp: list_index_def len_def Let_def)

theorem to_tokens_index_witness:
  "fst (to_tokens (Vocab (Some (Flat [''a''])) 0 None) (Index 1)) = Inr (Token ''a'')
   \<and> fst (to_tokens (Vocab (Some (Flat [''a''])) 0 None) (Index (- 2))) = Inr (Token ''<unk>'')
   \<and> fst (to_tokens (Vocab (Some (Flat [''a''])) 0 None) (Index 2)) = Inl IndexError
   \<and> fst (to_tokens (Vocab (Some (Flat [''a''])) 0 None) (Index (- 3))) = Inl IndexError"
proof -
  let ?V = "Vocab (Some (Flat [''a''])) 0 None"
  have l: "len ?V = 2" and i: "idx_to_token ?V = [''<unk>'', ''a'']"
    by (simp_all add: vocab_eval)
  from to_tokens_index [of ?V 1] l i
  have a: "fst (to_tokens ?V (Index 1)) = Inr (Token ''a'')" by simp
  from to_tokens_index [of ?V "- 2"] l i
  have b: "fst (to_tokens ?V (Index (- 2))) = Inr (Token ''<unk>'')" by simp
  from to_tokens_index [of ?V 2] l
  have c: "fst (to_tokens ?V (Index 2)) = Inl IndexError" by simp
  from to_tokens_index [of ?V "- 3"] l
  have d: "fst (to_tokens ?V (Index (- 3))) = Inl IndexError" by simp
  from a b c d show ?thesis by simp
qed

text \<open>The index \<open>-1\<close> is outside \<open>[0, len)\<close>, and reverse lookup returns the last token.\<close>

theorem to_tokens_index_counterexample:
  "len (Vocab (Some (Flat [''a''])) 0 None) = 2
   \<and> fst (to_tokens (Vocab (Some (Flat [''a''])) 0 None) (Index (- 1))) = Inr (Token ''a'')"
  by (simp add: vocab_eval list_index_def)

text \<open>
  Claim C10. Forward lookup of a list or a tuple is the list of the lookups of its
  elements, so a list of token lines gives the list of the index lines.
\<close>

theorem getitem_elementwise:
  "getitem v (PList xs) = RList (map (getitem v) xs)
   \<and> getitem v (PTuple xs) = RList (map (getitem v) xs)
   \<and> getitem v (Tok t) = Idx (case token_to_idx v t of Some i \<Rightarrow> i | None \<Rightarrow> unk v)
   \<and> getitem v (PList (map (\<lambda>line. PList (map Tok line)) lines))
       = RList (map (\<lambda>line. RList (map (\<lambda>t. Idx (dict_get (token_to_idx v) t (unk v))) line)) lines)"
  by (simp add: dict_get_def comp_def)

section \<open>Properties of the tokenizer\<close>

text \<open>
  Claim C3, as the code has it. For a mode other than \<open>word\<close> and \<open>char\<close>, \<open>tokenize\<close>
  prints the unknown-token-type line and returns \<open>None\<close>; it raises nothing, for no
  mode. For \<open>word\<close> it returns the lines split at whitespace, for \<open>char\<close> the lines
  split into characters, and prints nothing.
\<close>

theorem tokenize_modes:
  "(token \<noteq> ''word'' \<and> token \<noteq> ''char'' \<longrightarrow>
      tokenize lines token = (Inr None, [UnknownTokenType token]))
   \<and> tokenize lines ''word'' = (Inr (Some (map str_split lines)), [])
   \<and> tokenize lines ''char'' = (Inr (Some (map list_of_str lines)), [])
   \<and> (\<forall>e. fst (tokenize lines token) \<noteq> Inl e)"
  by (simp add: tokenize_def)

theorem tokenize_modes_witness:
  "''sentence'' \<noteq> ''word'' \<and> ''sentence'' \<noteq> ''char''
   \<and> tokenize [''the time machine'', ''''] ''sentence'' = (Inr None, [UnknownTokenType ''sentence''])
   \<and> fst (tokenize [''the time machine'', ''''] ''word'')
       = Inr (Some [[''the'', ''time'', ''machine''], []])
   \<and> fst (tokenize [''ab'', ''''] ''char'') = Inr (Some [[''a'', ''b''], []])"
proof -
  have h: "''sentence'' \<noteq> ''word'' \<and> ''sentence'' \<noteq> ''char''" by simp
  have w: "map str_split [''the time machine'', ''''] = [[''the'', ''time'', ''machine''], []]"
    by (simp add: str_split.simps isspace_def)
  have c: "map list_of_str [''ab'', ''''] = [[''a'', ''b''], []]"
    by (simp add: list_of_str_def)
  from tokenize_modes [of "''sentence''" "[''the time machine'', '''']"] h
    tokenize_modes [of "''word''" "[''ab'', '''']"] w c
  show ?thesis by simp
qed

text \<open>The mode \<open>sentence\<close> is reported on the output and the call returns \<open>None\<close>.\<close>

theorem tokenize_modes_counterexample:
  "tokenize [''the time machine''] ''sentence'' = (Inr None, [UnknownTokenType ''sentence''])"
  by (simp add: tokenize_def)

subsection \<open>Normalized lines\<close>

lemma isspace_space: "isspace (CHR '' '')"
  by (simp add: isspace_def)

lemma not_letter_space: "\<not> is_letter (CHR '' '')"
  by (simp add: is_letter_def)

lemma letter_not_space: "is_letter c \<Longrightarrow> \<not> isspace c"
  by (auto simp: is_letter_def isspace_def Let_def)

lemma re_sub_chars: "c \<in> set (re_sub_non_letters l) \<Longrightarrow> is_letter c \<or> c = CHR '' ''"
  by (induction l rule: re_sub_non_letters.induct) (auto split: if_splits)

lemma re_sub_hd:
  "re_sub_non_letters (dropWhile (\<lambda>x. \<not> is_letter x) cs) = [] \<or>
   hd (re_sub_non_letters (dropWhile (\<lambda>x. \<not> is_letter x) cs)) \<noteq> CHR '' ''"
proof (cases "dropWhile (\<lambda>x. \<not> is_letter x) cs")
  case Nil
  then have "re_sub_non_letters (dropWhile (\<lambda>x. \<not> is_letter x) cs) = []"
    by (simp only: re_sub_non_letters.simps)
  then show ?thesis ..
next
  case (Cons x xs)
  with hd_dropWhile [of "\<lambda>x. \<not> is_letter x" cs] have "is_letter x" by simp
  with Cons not_letter_space show ?thesis by auto
qed

lemma re_sub_single_spaced: "single_spaced (re_sub_non_letters l)"
  unfolding single_spaced_def
proof (induction l rule: re_sub_non_letters.induct)
  case 1
  show ?case by simp
next
  case (2 c cs)
  show ?case
  proof (cases "is_letter c")
    case True
    with 2 not_letter_space show ?thesis
      by (auto simp: successively_Cons)
  next
    case False
    with 2 re_sub_hd [of cs] show ?thesis
      by (auto simp: successively_Cons)
  qed
qed

lemma last_dropWhile: "dropWhile P xs \<noteq> [] \<Longrightarrow> last (dropWhile P xs) = last xs"
  by (induction xs) (auto split: if_splits)

lemma str_strip_decomp: "\<exists>pre post. s = pre @ str_strip s @ post"
proof -
  let ?d = "dropWhile isspace s"
  have "rev ?d = takeWhile isspace (rev ?d) @ dropWhile isspace (rev ?d)" by simp
  then have "?d = rev (dropWhile isspace (rev ?d)) @ rev (takeWhile isspace (rev ?d))"
    by (metis rev_append rev_rev_ident)
  then have "s = takeWhile isspace s @ str_strip s @ rev (takeWhile isspace (rev ?d))"
    unfolding str_strip_def by (metis takeWhile_dropWhile_id)
  then show ?thesis by blast
qed

lemma str_strip_ends:
  assumes "str_strip s \<noteq> []"
  shows "\<not> isspace (hd (str_strip s))" and "\<not> isspace (last (str_strip s))"
proof -
  let ?d = "dropWhile isspace s"
  from assms have ne: "dropWhile isspace (rev ?d) \<noteq> []" by (simp add: str_strip_def)
  have d: "?d \<noteq> []"
  proof
    assume "?d = []"
    then have "dropWhile isspace (rev ?d) = []" by (simp only: rev.simps dropWhile.simps)
    with ne show False ..
  qed
  have "hd (str_strip s) = last (dropWhile isspace (rev ?d))"
    by (simp add: str_strip_def hd_rev)
  also have "\<dots> = last (rev ?d)" using ne by (rule last_dropWhile)
  also have "\<dots> = hd ?d" by (simp add: last_rev)
  finally show "\<not> isspace (hd (str_strip s))" using hd_dropWhile [OF d] by simp
  have "last (str_strip s) = hd (dropWhile isspace (rev ?d))"
    by (simp add: str_strip_def last_rev)
  then show "\<not> isspace (last (str_strip s))" using hd_dropWhile [OF ne] by simp
qed

lemma lower_char_letter: "is_letter c \<Longrightarrow> is_letter (lower_char c)"
  by (auto simp: is_letter_def lower_char_def Let_def)

lemma lower_char_space: "lower_char (CHR '' '') = CHR '' ''"
  by (simp add: lower_char_def)

lemma tidy_normalize_line: "tidy (normalize_line l)"
proof -
  let ?r = "re_sub_non_letters l"
  let ?u = "str_strip ?r"
  obtain pre post where dec: "?r = pre @ ?u @ post"
    using str_strip_decomp [of ?r] by blast
  have chars: "is_letter c \<or> c = CHR '' ''" if "c \<in> set ?u" for c
  proof -
    from that have "c \<in> set (pre @ ?u @ post)" by simp
    then have "c \<in> set ?r" by (simp only: dec [symmetric])
    then show ?thesis by (rule re_sub_chars)
  qed
  have lower_sp: "c = CHR '' ''" if "c \<in> set ?u" "lower_char c = CHR '' ''" for c
    using chars [OF that(1)] lower_char_letter [of c] that(2) not_letter_space by auto
  have lower_nsp: "\<not> isspace (lower_char c)" if "c \<in> set ?u" "\<not> isspace c" for c
    using chars [OF that(1)] that(2) lower_char_letter [of c] letter_not_space isspace_space
    by auto
  have "single_spaced (pre @ ?u @ post)"
    using re_sub_single_spaced [of l] by (simp only: dec [symmetric])
  then have ss: "single_spaced ?u"
    by (simp add: single_spaced_def successively_append_iff)
  have 1: "\<forall>c \<in> set (normalize_line l). isspace c \<longrightarrow> c = CHR '' ''"
  proof (intro ballI impI)
    fix c assume "c \<in> set (normalize_line l)" "isspace c"
    then obtain c' where c': "c' \<in> set ?u" "c = lower_char c'"
      by (auto simp: normalize_line_def str_lower_def)
    from chars [OF c'(1)] show "c = CHR '' ''"
    proof
      assume "is_letter c'"
      then have "\<not> isspace c" unfolding c'(2) by (intro letter_not_space lower_char_letter)
      with \<open>isspace c\<close> show ?thesis by simp
    next
      assume "c' = CHR '' ''"
      then show ?thesis by (simp add: c'(2) lower_char_space)
    qed
  qed
  have 2: "single_spaced (normalize_line l)"
    unfolding normalize_line_def str_lower_def single_spaced_def successively_map
    using ss [unfolded single_spaced_def]
    by (rule successively_mono) (auto dest: lower_sp)
  have 3: "\<not> isspace (hd (normalize_line l)) \<and> \<not> isspace (last (normalize_line l))"
    if "normalize_line l \<noteq> []"
  proof -
    from that have ne: "?u \<noteq> []" by (simp add: normalize_line_def str_lower_def)
    then have "hd ?u \<in> set ?u" "last ?u \<in> set ?u" by simp_all
    with str_strip_ends [OF ne] have "\<not> isspace (lower_char (hd ?u))"
      "\<not> isspace (lower_char (last ?u))"
      using lower_nsp by blast+
    with ne show ?thesis
      by (simp add: normalize_line_def str_lower_def hd_map last_map)
  qed
  from 1 2 3 show ?thesis by (simp add: tidy_def)
qed

subsection \<open>Splitting and joining\<close>

lemma str_split_Nil: "str_split [] = []"
  by (simp add: str_split.simps)

lemma str_split_word:
  assumes "s \<noteq> []" and "\<not> isspace (hd s)"
  shows "str_split s = takeWhile (\<lambda>c. \<not> isspace c) s # str_split (dropWhile (\<lambda>c. \<not> isspace c) s)"
proof -
  from assms have "dropWhile isspace s = s" by (simp add: dropWhile_eq_self_iff)
  with assms(1) show ?thesis by (subst str_split.simps) simp
qed

lemma str_split_skip:
  assumes "isspace c"
  shows "str_split (c # cs) = str_split cs"
proof -
  from assms have "dropWhile isspace (c # cs) = dropWhile isspace cs" by simp
  then show ?thesis by (subst str_split.simps, subst (2) str_split.simps) (simp only:)
qed

lemma join_Cons: "ts \<noteq> [] \<Longrightarrow> join sep (t # ts) = t @ sep @ join sep ts"
  by (cases ts) simp_all

lemma join_split_tidy: "tidy s \<Longrightarrow> join '' '' (str_split s) = s"
proof (induction s rule: length_induct)
  case (1 s)
  show ?case
  proof (cases "s = []")
    case True
    then show ?thesis by (simp add: str_split_Nil)
  next
    case False
    let ?w = "takeWhile (\<lambda>c. \<not> isspace c) s"
    let ?r = "dropWhile (\<lambda>c. \<not> isspace c) s"
    from False "1.prems" have ends: "\<not> isspace (hd s)" "\<not> isspace (last s)"
      by (simp_all add: tidy_def)
    have split: "str_split s = ?w # str_split ?r"
      using False ends(1) by (rule str_split_word)
    have s: "s = ?w @ ?r" by simp
    show ?thesis
    proof (cases ?r)
      case Nil
      with s have "s = ?w" by simp
      with split Nil show ?thesis by (simp add: str_split_Nil)
    next
      case (Cons c r')
      with hd_dropWhile [of "\<lambda>c. \<not> isspace c" s] have "isspace c" by simp
      moreover have "c \<in> set s" using Cons by (metis list.set_intros(1) set_dropWhileD)
      ultimately have c: "c = CHR '' ''" using "1.prems" by (simp add: tidy_def)
      have s': "s = ?w @ CHR '' '' # r'" using s Cons c by simp
      have r'_ne: "r' \<noteq> []"
      proof
        assume "r' = []"
        with s' have "last s = CHR '' ''" by (metis last_snoc)
        with ends(2) isspace_space show False by simp
      qed
      from "1.prems" have "single_spaced (?w @ CHR '' '' # r')"
        unfolding tidy_def using s' by metis
      then have ss: "single_spaced (CHR '' '' # r')"
        by (simp add: single_spaced_def successively_append_iff)
      with r'_ne have hd_r': "hd r' \<noteq> CHR '' ''" and ss': "single_spaced r'"
        by (auto simp: single_spaced_def successively_Cons)
      have sub: "set r' \<subseteq> set s" by (subst s') auto
      have "hd r' \<in> set s" using r'_ne sub by auto
      with hd_r' "1.prems" have hd_nsp: "\<not> isspace (hd r')" by (auto simp: tidy_def)
      have "last r' = last s" using r'_ne by (subst s') simp
      with ends(2) have last_nsp: "\<not> isspace (last r')" by simp
      have "tidy r'"
        using "1.prems" sub ss' hd_nsp last_nsp unfolding tidy_def by auto
      moreover have "length r' < length s" by (subst s') simp
      ultimately have IH: "join '' '' (str_split r') = r'"
        using "1.IH" by blast
      have "str_split ?r = str_split r'"
        unfolding Cons c using isspace_space by (rule str_split_skip)
      moreover have "str_split r' \<noteq> []"
        using str_split_word [OF r'_ne hd_nsp] by simp
      ultimately have "join '' '' (str_split s) = ?w @ '' '' @ r'"
        using split IH by (simp add: join_Cons)
      also have "\<dots> = s" using s' by simp
      finally show ?thesis .
    qed
  qed
qed

text \<open>
  Claim C7. For every non-empty line, tokenizing the normalized line in \<open>word\<close> mode and
  joining the tokens with single spaces gives the normalized line back.
\<close>

theorem word_tokens_rejoin:
  assumes "line \<noteq> []"
  shows "fst (tokenize [normalize_line line] ''word'') = Inr (Some [str_split (normalize_line line)])
       \<and> join '' '' (str_split (normalize_line line)) = normalize_line line"
  using join_split_tidy [OF tidy_normalize_line, of line] by (simp add: tokenize_def)

theorem word_tokens_rejoin_witness:
  "''The Time-Machine, by H. G. Wells [1898]'' \<noteq> []
   \<and> normalize_line ''The Time-Machine, by H. G. Wells [1898]'' = ''the time machine by h g wells''
   \<and> join '' '' (str_split (normalize_line ''The Time-Machine, by H. G. Wells [1898]''))
       = ''the time machine by h g wells''"
proof -
  have h: "''The Time-Machine, by H. G. Wells [1898]'' \<noteq> []" by simp
  have n: "normalize_line ''The Time-Machine, by H. G. Wells [1898]''
           = ''the time machine by h g wells''"
    by code_simp
  from word_tokens_rejoin [OF h] h n show ?thesis by simp
qed

section \<open>Properties of the corpus encoder\<close>

lemma list_of_str_tokens:
  "t \<in> set (concat (map list_of_str ls)) \<Longrightarrow> length t = 1"
  by (auto simp: list_of_str_def)

lemma getitem_corpus_token:
  fixes tokens
  defines "vocab \<equiv> Vocab (Some (Nested tokens)) 0 None"
  assumes "t \<in> set (concat tokens)" and "t \<noteq> ''<unk>''"
  shows "\<exists>n. getitem vocab (Tok t) = Idx n \<and> n < len vocab \<and> idx_to_token vocab ! n = t"
proof -
  from assms(2,3) have "t \<in> set (corpus_part (Some (Nested tokens)) 0 None)"
    by (simp add: set_corpus_part corpus_of_def reserved_of_def)
  then have "t \<in> set (idx_to_token vocab)"
    by (simp add: vocab_def idx_to_token_Vocab)
  from token_to_idx_Vocab_in [OF this [unfolded vocab_def]]
  show ?thesis by (auto simp: vocab_def dict_get_def)
qed

text \<open>
  Claim C9. On a readable file \<open>load_corpus_time_machine\<close> returns the corpus together
  with the vocabulary built from the character tokens of the normalized lines. The
  corpus is the lookup of every token of every line, in document order, in that
  vocabulary; when \<open>max_tokens\<close> is positive it is cut to its first \<open>max_tokens\<close>
  elements, and otherwise it is left whole. Every element is the index of its token.
\<close>

theorem load_corpus_time_machine_result:
  fixes file_lines max_tokens
  defines "tokens \<equiv> map list_of_str (map normalize_line file_lines)"
  defines "vocab \<equiv> Vocab (Some (Nested tokens)) 0 None"
  defines "full \<equiv> map (\<lambda>t. getitem vocab (Tok t)) (concat tokens)"
  shows "load_corpus_time_machine None max_tokens = Inl IOError
       \<and> (\<exists>corpus. load_corpus_time_machine (Some file_lines) max_tokens = Inr (corpus, vocab)
       \<and> (0 < max_tokens \<longrightarrow> corpus = take (nat max_tokens) full \<and> length corpus \<le> nat max_tokens)
       \<and> (max_tokens \<le> 0 \<longrightarrow> corpus = full)
       \<and> prefix corpus full
       \<and> (\<forall>i < length full. \<exists>n. full ! i = Idx n \<and> n < len vocab \<and>
                                idx_to_token vocab ! n = concat tokens ! i))"
proof -
  let ?corpus = "if 0 < max_tokens then take (nat max_tokens) full else full"
  have run: "load_corpus_time_machine (Some file_lines) max_tokens = Inr (?corpus, vocab)"
    by (simp add: load_corpus_time_machine_def read_time_machine_def tokenize_def Let_def
        full_def vocab_def tokens_def map_concat comp_def)
  have pre: "prefix ?corpus full" by (simp add: take_is_prefix)
  have dec: "\<exists>n. full ! i = Idx n \<and> n < len vocab \<and> idx_to_token vocab ! n = concat tokens ! i"
    if "i < length full" for i
  proof -
    from that have i: "i < length (concat tokens)" by (simp add: full_def)
    then have mem: "concat tokens ! i \<in> set (concat tokens)" by (rule nth_mem)
    then have "length (concat tokens ! i) = 1"
      unfolding tokens_def by (rule list_of_str_tokens)
    then have "concat tokens ! i \<noteq> ''<unk>''" by auto
    from getitem_corpus_token [OF mem this] i show ?thesis
      by (simp add: full_def vocab_def)
  qed
  have io: "load_corpus_time_machine None max_tokens = Inl IOError"
    by (simp add: load_corpus_time_machine_def read_time_machine_def)
  from run pre dec have "\<exists>corpus. load_corpus_time_machine (Some file_lines) max_tokens = Inr (corpus, vocab)
       \<and> (0 < max_tokens \<longrightarrow> corpus = take (nat max_tokens) full \<and> length corpus \<le> nat max_tokens)
       \<and> (max_tokens \<le> 0 \<longrightarrow> corpus = full)
       \<and> prefix corpus full
       \<and> (\<forall>i < length full. \<exists>n. full ! i = Idx n \<and> n < len vocab \<and>
                                idx_to_token vocab ! n = concat tokens ! i)"
    by (intro exI [of _ ?corpus]) auto
  with io show ?thesis by blast
qed

theorem load_corpus_time_machine_result_witness:
  "(0::int) < 2 \<and> (0::int) \<le> 0
   \<and> map_sum id fst (load_corpus_time_machine (Some [''Ab, c'', '''']) 2) = Inr [Idx 1, Idx 2]
   \<and> map_sum id fst (load_corpus_time_machine (Some [''Ab, c'', '''']) 0)
       = Inr [Idx 1, Idx 2, Idx 3, Idx 4]
   \<and> map_sum id (idx_to_token \<circ> snd) (load_corpus_time_machine (Some [''Ab, c'', '''']) 2)
       = Inr [''<unk>'', ''a'', ''b'', '' '', ''c'']"
proof -
  let ?tokens = "map list_of_str (map normalize_line [''Ab, c'', ''''])"
  let ?V = "Vocab (Some (Nested ?tokens)) 0 None"
  let ?full = "map (\<lambda>t. getitem ?V (Tok t)) (concat ?tokens)"
  have full: "?full = [Idx 1, Idx 2, Idx 3, Idx 4]" by code_simp
  have idx: "idx_to_token ?V = [''<unk>'', ''a'', ''b'', '' '', ''c'']" by code_simp
  from load_corpus_time_machine_result [where file_lines = "[''Ab, c'', '''']" and max_tokens = 2]
  obtain c2 where c2: "load_corpus_time_machine (Some [''Ab, c'', '''']) 2 = Inr (c2, ?V)"
    "c2 = take (nat 2) ?full"
    by auto
  from load_corpus_time_machine_result [where file_lines = "[''Ab, c'', '''']" and max_tokens = 0]
  obtain c0 where c0: "load_corpus_time_machine (Some [''Ab, c'', '''']) 0 = Inr (c0, ?V)"
    "c0 = ?full"
    by auto
  have l2: "load_corpus_time_machine (Some [''Ab, c'', '''']) 2 = Inr ([Idx 1, Idx 2], ?V)"
    unfolding c2 full by simp
  have l0: "load_corpus_time_machine (Some [''Ab, c'', '''']) 0
            = Inr ([Idx 1, Idx 2, Idx 3, Idx 4], ?V)"
    unfolding c0 full by simp
  show ?thesis
    by (simp only: l2 l0 map_sum.simps id_apply fst_conv snd_conv comp_apply idx) simp
qed

end
